theory Spec2Isabelle
  imports Main
begin

section \<open>JavaScript strings\<close>

text \<open>
  A string is the list of its characters. A \<open>char\<close> has 8 bits, so the strings here are
  those whose code units are below 256; the functions only compare and copy characters.
  \<open>substring\<close> and \<open>slice\<close> follow
  \<^verbatim>\<open>String.prototype.substring\<close> and \<^verbatim>\<open>String.prototype.slice\<close> for integer arguments:
  \<open>substring\<close> clamps both bounds to \<open>[0, length]\<close> and swaps them when out of order,
  \<open>slice\<close> counts a negative bound from the end.
\<close>

definition js_substring :: "string \<Rightarrow> int \<Rightarrow> int \<Rightarrow> string" where
  "js_substring s a b =
     (let n = int (length s);
          a' = min (max a 0) n;
          b' = min (max b 0) n;
          lo = min a' b';
          hi = max a' b'
      in take (nat (hi - lo)) (drop (nat lo) s))"

definition js_slice :: "string \<Rightarrow> int \<Rightarrow> int \<Rightarrow> string" where
  "js_slice s a b =
     (let n = int (length s);
          lo = (if a < 0 then max (n + a) 0 else min a n);
          hi = (if b < 0 then max (n + b) 0 else min b n)
      in take (nat (hi - lo)) (drop (nat lo) s))"

text \<open>\<^verbatim>\<open>s.slice(a)\<close> with the end omitted runs to the end of the string.\<close>

definition js_slice_from :: "string \<Rightarrow> int \<Rightarrow> string" where
  "js_slice_from s a = js_slice s a (int (length s))"

definition is_digit :: "char \<Rightarrow> bool" where
  "is_digit c \<longleftrightarrow> c \<in> set ''0123456789''"

section \<open>JavaScript values\<close>

text \<open>
  The values the functions inspect: \<open>undefined\<close>, \<open>null\<close>, booleans, numbers, strings,
  arrays, plain objects and all other objects. A number carries an integer; no function
  below looks at a number's value. An array is its list of slots, \<open>None\<close> for a hole of
  a sparse array, together with its own properties whose keys are not array indices. A
  plain object is the list of its own enumerable properties in the order
  \<^verbatim>\<open>Object.keys\<close> lists them. \<open>JInst c ps\<close> is an object whose prototype is not
  \<^verbatim>\<open>Object.prototype\<close> (a class instance, a \<^verbatim>\<open>Date\<close>), with \<open>c\<close> naming its
  class.

  Objects are trees of own data properties. Not part of the model are: the prototype
  chain (the properties every object inherits, such as \<^verbatim>\<open>constructor\<close>, and the key
  \<^verbatim>\<open>__proto__\<close>), accessors, the \<^verbatim>\<open>length\<close> of an array or a string as a property key,
  and one object held in two places. Array indices are the canonical decimal numerals;
  the bound \<open>2^32 - 1\<close> on them is left out.
\<close>

datatype error = TypeError

datatype jsval =
    JUndefined
  | JNull
  | JBool bool
  | JNum int
  | JStr string
  | JArr "jsval option list" "(string \<times> jsval) list"
  | JObj "(string \<times> jsval) list"
  | JInst nat "(string \<times> jsval) list"

subsection \<open>Array indices as property keys\<close>

definition digit_char :: "nat \<Rightarrow> char" where
  "digit_char d = char_of (48 + d)"

definition digit_val :: "char \<Rightarrow> nat" where
  "digit_val c = of_char c - 48"

text \<open>The decimal numeral of an index, as \<^verbatim>\<open>Object.keys\<close> writes the keys of an array.\<close>

function show_nat :: "nat \<Rightarrow> string" where
  "show_nat n = (if n < 10 then [digit_char n] else show_nat (n div 10) @ [digit_char (n mod 10)])"
  by pat_completeness auto
termination
  by (relation "measure id") auto

declare show_nat.simps [simp del]

text \<open>
  A key is an array index when it is the canonical numeral of a natural number: digits
  only, and no leading zero except in \<^verbatim>\<open>"0"\<close> itself.
\<close>

definition array_index :: "string \<Rightarrow> nat option" where
  "array_index k =
     (if k \<noteq> [] \<and> list_all is_digit k \<and> (k = ''0'' \<or> hd k \<noteq> CHR ''0'')
      then Some (foldl (\<lambda>a c. 10 * a + digit_val c) 0 k)
      else None)"

subsection \<open>Own properties\<close>

definition lookup :: "(string \<times> jsval) list \<Rightarrow> string \<Rightarrow> jsval" where
  "lookup kvs k = (case map_of kvs k of Some v \<Rightarrow> v | None \<Rightarrow> JUndefined)"

fun replace_at :: "(string \<times> jsval) list \<Rightarrow> string \<Rightarrow> jsval \<Rightarrow> (string \<times> jsval) list" where
  "replace_at [] k v = []"
| "replace_at (p # ps) k v = (if fst p = k then (k, v) # ps else p # replace_at ps k v)"

definition index_below :: "nat \<Rightarrow> string \<times> jsval \<Rightarrow> bool" where
  "index_below i p = (case array_index (fst p) of Some j \<Rightarrow> j < i | None \<Rightarrow> False)"

text \<open>
  \<open>obj_put\<close> is an assignment to an own property. An existing key keeps its place. A new
  key that is an array index goes among the index keys, which come first in ascending
  order; any other new key goes last.
\<close>

definition obj_put :: "(string \<times> jsval) list \<Rightarrow> string \<Rightarrow> jsval \<Rightarrow> (string \<times> jsval) list" where
  "obj_put kvs k v =
     (if k \<in> set (map fst kvs) then replace_at kvs k v
      else (case array_index k of
              None \<Rightarrow> kvs @ [(k, v)]
            | Some i \<Rightarrow> takeWhile (index_below i) kvs @ (k, v) # dropWhile (index_below i) kvs))"


text \<open>\<open>js_prop v k\<close> is \<^verbatim>\<open>v[k]\<close> for a value that is not \<open>null\<close> or \<open>undefined\<close>.\<close>

fun js_prop :: "jsval \<Rightarrow> string \<Rightarrow> jsval" where
  "js_prop (JObj kvs) k = lookup kvs k"
| "js_prop (JInst c kvs) k = lookup kvs k"
| "js_prop (JArr xs ex) k =
     (case array_index k of
        Some i \<Rightarrow> (if i < length xs then (case xs ! i of Some v \<Rightarrow> v | None \<Rightarrow> JUndefined)
                   else JUndefined)
      | None \<Rightarrow> lookup ex k)"
| "js_prop (JStr s) k =
     (case array_index k of
        Some i \<Rightarrow> (if i < length s then JStr [s ! i] else JUndefined)
      | None \<Rightarrow> JUndefined)"
| "js_prop v k = JUndefined"

definition nullish :: "jsval \<Rightarrow> bool" where
  "nullish v \<longleftrightarrow> v = JNull \<or> v = JUndefined"


text \<open>\<^verbatim>\<open>Object.keys(v)\<close> for a value that is not \<open>null\<close> or \<open>undefined\<close>.\<close>

fun own_keys :: "jsval \<Rightarrow> string list" where
  "own_keys (JObj kvs) = map fst kvs"
| "own_keys (JInst c kvs) = map fst kvs"
| "own_keys (JArr xs ex) =
     map show_nat (filter (\<lambda>i. xs ! i \<noteq> None) [0..<length xs]) @
     filter (\<lambda>k. array_index k = None) (map fst ex)"
| "own_keys (JStr s) = map show_nat [0..<length s]"
| "own_keys v = []"

text \<open>
  \<^verbatim>\<open>v[k] = x\<close> in strict mode (the source is a module). An array grows to hold a new
  index, the slots between becoming holes. A primitive refuses the assignment.
\<close>

fun js_set :: "jsval \<Rightarrow> string \<Rightarrow> jsval \<Rightarrow> error + jsval" where
  "js_set (JObj kvs) k x = Inr (JObj (obj_put kvs k x))"
| "js_set (JInst c kvs) k x = Inr (JInst c (obj_put kvs k x))"
| "js_set (JArr xs ex) k x =
     (case array_index k of
        Some i \<Rightarrow>
          Inr (JArr (if i < length xs then xs[i := Some x]
                     else xs @ replicate (i - length xs) None @ [Some x]) ex)
      | None \<Rightarrow> Inr (JArr xs (obj_put ex k x)))"
| "js_set v k x = Inl TypeError"


fun is_array :: "jsval \<Rightarrow> bool" where
  "is_array (JArr xs ex) = True"
| "is_array v = False"

fun is_string :: "jsval \<Rightarrow> bool" where
  "is_string (JStr s) = True"
| "is_string v = False"

text \<open>A value that takes property assignments: an array, a plain object, another object.\<close>

fun is_object :: "jsval \<Rightarrow> bool" where
  "is_object (JArr xs ex) = True"
| "is_object (JObj kvs) = True"
| "is_object (JInst c kvs) = True"
| "is_object v = False"

fun str_length :: "jsval \<Rightarrow> nat" where
  "str_length (JStr s) = length s"
| "str_length v = 0"

fun array_length :: "jsval \<Rightarrow> nat" where
  "array_length (JArr xs ex) = length xs"
| "array_length v = 0"

section \<open>The functions of util.ts\<close>

subsection \<open>cleanNulls and the predicates it calls\<close>

text \<open>
  \<^verbatim>\<open>obj === Object(obj) && Object.getPrototypeOf(obj) === Object.prototype\<close>: an object
  (not a primitive) whose prototype is the base prototype. The prototype of an array is
  \<^verbatim>\<open>Array.prototype\<close>.
\<close>

fun isBasicObject :: "jsval \<Rightarrow> bool" where
  "isBasicObject (JObj kvs) = True"
| "isBasicObject v = False"

definition isNullUndefinedOrEmptyString :: "jsval \<Rightarrow> bool" where
  "isNullUndefinedOrEmptyString val \<longleftrightarrow>
     val = JUndefined \<or> val = JNull \<or> (is_string val \<and> str_length val = 0)"

text \<open>
  \<open>isEmpty\<close>: \<open>null\<close> and \<open>undefined\<close> are empty; an array or a string is empty when its
  length is 0; any other value is empty when the \<^verbatim>\<open>for ... in\<close> loop finds no own
  enumerable key, which is so for every number and boolean. (\<^verbatim>\<open>Map\<close>, \<^verbatim>\<open>Set\<close> and
  prototype objects are not among the values.)
\<close>

fun isEmpty :: "jsval \<Rightarrow> bool" where
  "isEmpty JNull = True"
| "isEmpty JUndefined = True"
| "isEmpty (JArr xs ex) = (length xs = 0)"
| "isEmpty (JStr s) = (length s = 0)"
| "isEmpty (JObj kvs) = (kvs = [])"
| "isEmpty (JInst c kvs) = (kvs = [])"
| "isEmpty (JBool b) = True"
| "isEmpty (JNum n) = True"

text \<open>A \<^verbatim>\<open>forEach\<close> whose body may throw: the first error ends the loop.\<close>

fun fold_err :: "('a \<Rightarrow> 's \<Rightarrow> error + 's) \<Rightarrow> 'a list \<Rightarrow> 's \<Rightarrow> error + 's" where
  "fold_err f [] s = Inr s"
| "fold_err f (x # xs) s = (case f x s of Inl e \<Rightarrow> Inl e | Inr s' \<Rightarrow> fold_err f xs s')"

lemma fold_err_cong [fundef_cong]:
  "xs = ys \<Longrightarrow> s = t \<Longrightarrow> (\<And>x a. x \<in> set ys \<Longrightarrow> f x a = g x a) \<Longrightarrow>
   fold_err f xs s = fold_err g ys t"
proof (induction ys arbitrary: xs s t)
  case Nil
  then show ?case by simp
next
  case (Cons y ys)
  then show ?case by (auto split: sum.splits)
qed

lemma size_map_of: "map_of kvs k = Some v \<Longrightarrow> size v < Suc (size_list (size_prod (\<lambda>_. 0) size) kvs)"
  by (induction kvs) (auto split: if_splits)

lemma size_lookup: "lookup kvs k \<noteq> JUndefined \<Longrightarrow>
    size (lookup kvs k) < Suc (size_list (size_prod (\<lambda>_. 0) size) kvs)"
  by (auto simp: lookup_def size_map_of split: option.splits)

lemma size_nth_slot: "i < length xs \<Longrightarrow> xs ! i = Some v \<Longrightarrow>
    size v < Suc (size_list (size_option size) xs)"
proof (induction xs arbitrary: i)
  case Nil
  then show ?case by simp
next
  case (Cons x xs)
  show ?case
  proof (cases i)
    case 0
    with Cons.prems show ?thesis by simp
  next
    case (Suc j)
    with Cons.prems have "j < length xs" "xs ! j = Some v" by simp_all
    then have "size v < Suc (size_list (size_option size) xs)" by (rule Cons.IH)
    then show ?thesis by simp
  qed
qed

lemma size_prop:
  "is_array (js_prop d k) \<or> isBasicObject (js_prop d k) \<Longrightarrow> size (js_prop d k) < size d"
proof (cases d)
  case (JArr xs ex)
  assume h: "is_array (js_prop d k) \<or> isBasicObject (js_prop d k)"
  show ?thesis
  proof (cases "array_index k")
    case None
    with h JArr have "lookup ex k \<noteq> JUndefined" by auto
    then have "size (lookup ex k) < Suc (size_list (size_prod (\<lambda>_. 0) size) ex)"
      by (rule size_lookup)
    with None JArr show ?thesis by simp
  next
    case (Some i)
    with h JArr obtain v where "i < length xs" "xs ! i = Some v"
      by (auto split: if_splits option.splits)
    then have "size v < Suc (size_list (size_option size) xs)" by (rule size_nth_slot)
    with Some JArr \<open>i < length xs\<close> \<open>xs ! i = Some v\<close> show ?thesis by simp
  qed
next
  case (JObj kvs)
  assume h: "is_array (js_prop d k) \<or> isBasicObject (js_prop d k)"
  with JObj have "lookup kvs k \<noteq> JUndefined" by auto
  then have "size (lookup kvs k) < Suc (size_list (size_prod (\<lambda>_. 0) size) kvs)"
    by (rule size_lookup)
  with JObj show ?thesis by simp
next
  case (JInst c kvs)
  assume h: "is_array (js_prop d k) \<or> isBasicObject (js_prop d k)"
  with JInst have "lookup kvs k \<noteq> JUndefined" by auto
  then have "size (lookup kvs k) < Suc (size_list (size_prod (\<lambda>_. 0) size) kvs)"
    by (rule size_lookup)
  with JInst show ?thesis by simp
next
  case (JStr s)
  assume "is_array (js_prop d k) \<or> isBasicObject (js_prop d k)"
  with JStr show ?thesis by (auto split: option.splits if_splits)
qed auto

text \<open>
  The loop runs over \<^verbatim>\<open>Object.keys(doc)\<close>, reads \<^verbatim>\<open>doc[key]\<close> and assigns
  \<^verbatim>\<open>newDoc[key]\<close>; the keys of an array are the numerals of its indices that are not
  holes. \<^verbatim>\<open>Object.keys\<close> throws on \<open>null\<close> and \<open>undefined\<close>.
\<close>

function cleanNulls :: "jsval \<Rightarrow> bool \<Rightarrow> bool \<Rightarrow> error + jsval" where
  "cleanNulls doc isArray keepEmptyStrings =
     (if nullish doc then Inl TypeError
      else
        fold_err
          (\<lambda>key newDoc.
             let val = js_prop doc key in
             if \<not> is_array val \<and> isBasicObject val then
               (case cleanNulls val False keepEmptyStrings of
                  Inl e \<Rightarrow> Inl e
                | Inr val' \<Rightarrow> if \<not> isEmpty val' then js_set newDoc key val' else Inr newDoc)
             else if is_array val then
               (case cleanNulls val True keepEmptyStrings of
                  Inl e \<Rightarrow> Inl e
                | Inr val' \<Rightarrow> if \<not> isEmpty val' then js_set newDoc key val' else Inr newDoc)
             else if \<not> isNullUndefinedOrEmptyString val then js_set newDoc key val
             else if keepEmptyStrings \<and> is_string val \<and> str_length val = 0 then
               js_set newDoc key val
             else Inr newDoc)
          (own_keys doc)
          (if isArray then JArr [] [] else JObj []))"
  by pat_completeness auto
termination
  by (relation "measure (\<lambda>(doc, isArray, keepEmptyStrings). size doc)") (auto simp: size_prop)

declare cleanNulls.simps [simp del]

subsection \<open>reportNulls\<close>


subsection \<open>genericKeyAffectsOtherGenericKey\<close>

definition genericKeyAffectsOtherGenericKey :: "string \<Rightarrow> string \<Rightarrow> bool" where
  "genericKeyAffectsOtherGenericKey key affectedKey =
     (if affectedKey = key then True
      else if js_substring affectedKey 0 (int (length key) + 1) = key @ ''.'' then True
      else (let lastTwo = js_slice_from key (- 2)
            in if lastTwo = ''.$'' \<and> js_slice key 0 (- 2) = affectedKey then True
               else False))"

subsection \<open>makeKeyGeneric\<close>

text \<open>The lookahead \<^verbatim>\<open>(?=\.|$)\<close>: the rest of the input is empty or starts with a dot.\<close>

fun lookahead :: "string \<Rightarrow> bool" where
  "lookahead [] = True"
| "lookahead (c # cs) = (c = CHR ''.'')"

text \<open>
  \<open>match_here s\<close> matches \<^verbatim>\<open>/\.([0-9]+|\$\[[^\]]*\])(?=\.|$)/\<close> anchored at the start of
  \<open>s\<close> and returns what follows the match. The backtracking matcher has one candidate per
  alternative: \<^verbatim>\<open>[0-9]+\<close> is greedy and a shorter run of digits is followed by a digit, which
  the lookahead refuses; \<^verbatim>\<open>[^\]]*\<close> must stop at the first \<^verbatim>\<open>]\<close>, since it cannot cross one
  and the next pattern character is \<^verbatim>\<open>]\<close>. The two alternatives start with different
  characters, so at most one applies.
\<close>

definition match_here :: "string \<Rightarrow> string option" where
  "match_here s =
     (case s of
        [] \<Rightarrow> None
      | c # r \<Rightarrow>
          if c \<noteq> CHR ''.'' then None
          else if takeWhile is_digit r \<noteq> [] then
            (if lookahead (dropWhile is_digit r) then Some (dropWhile is_digit r) else None)
          else
            (case r of
               d # b # body \<Rightarrow>
                 if d = CHR ''$'' \<and> b = CHR ''['' then
                   (case dropWhile (\<lambda>x. x \<noteq> CHR '']'') body of
                      [] \<Rightarrow> None
                    | _ # after \<Rightarrow> if lookahead after then Some after else None)
                 else None
             | _ \<Rightarrow> None))"

lemma length_dropWhile_less_Suc: "length (dropWhile P xs) < Suc (length xs)"
  by (simp add: less_Suc_eq_le length_dropWhile_le)

lemma dropWhile_Cons_shorter: "dropWhile P xs = y # ys \<Longrightarrow> length ys < length xs"
proof -
  assume h: "dropWhile P xs = y # ys"
  have "length (dropWhile P xs) \<le> length xs" by (rule length_dropWhile_le)
  with h show ?thesis by simp
qed

lemma match_here_shorter: "match_here s = Some r \<Longrightarrow> length r < length s"
proof (cases s)
  case Nil
  assume "match_here s = Some r"
  with Nil show ?thesis by (simp add: match_here_def)
next
  case (Cons c t)
  assume m: "match_here s = Some r"
  show ?thesis
  proof (cases "takeWhile is_digit t \<noteq> []")
    case True
    with m Cons have "r = dropWhile is_digit t"
      by (simp add: match_here_def split: if_splits)
    with Cons show ?thesis by (simp add: length_dropWhile_less_Suc)
  next
    case False
    with m Cons obtain body x where t: "t = CHR ''$'' # CHR ''['' # body"
      and d: "dropWhile (\<lambda>x. x \<noteq> CHR '']'') body = x # r"
      by (auto simp: match_here_def split: if_splits list.splits)
    from d have "length r < length body" by (rule dropWhile_Cons_shorter)
    with t Cons show ?thesis by simp
  qed
qed

text \<open>
  \<^verbatim>\<open>key.replace(/.../g, '.$')\<close>: scan from the left; at a match emit \<^verbatim>\<open>.$\<close> and go on after
  the match, otherwise copy one code unit. The pattern never matches the empty string.
\<close>

function replace_positional :: "string \<Rightarrow> string" where
  "replace_positional s =
     (case match_here s of
        Some r \<Rightarrow> ''.$'' @ replace_positional r
      | None \<Rightarrow> (case s of [] \<Rightarrow> [] | c # cs \<Rightarrow> c # replace_positional cs))"
  by pat_completeness auto
termination
  by (relation "measure length") (auto simp: match_here_shorter)

declare replace_positional.simps [simp del]

definition makeKeyGeneric :: "jsval \<Rightarrow> jsval" where
  "makeKeyGeneric key =
     (case key of JStr s \<Rightarrow> JStr (replace_positional s) | _ \<Rightarrow> JNull)"

subsection \<open>expandKey\<close>

text \<open>\<^verbatim>\<open>key.split('[')\<close>: the pieces between the separators; no separator gives one piece.\<close>

fun split_on :: "char \<Rightarrow> string \<Rightarrow> string list" where
  "split_on sep [] = [[]]"
| "split_on sep (c # cs) =
     (if c = sep then [] # split_on sep cs
      else (case split_on sep cs of [] \<Rightarrow> [[c]] | p # ps \<Rightarrow> (c # p) # ps))"




text \<open>
  The container is a tree, so the walk returns the current container as the call leaves
  it: \<open>store_back\<close> puts the child the walk went into, with the changes made inside it,
  back under its key. A child that is not an object comes back as it went in.
\<close>

definition store_back :: "jsval \<Rightarrow> string \<Rightarrow> jsval \<Rightarrow> jsval" where
  "store_back current subkey child =
     (case js_set current subkey child of Inl e \<Rightarrow> current | Inr current' \<Rightarrow> current')"



section \<open>The properties in the words of the spec\<close>

subsection \<open>The generic key path\<close>

text \<open>
  The pattern in words: a dot, then one or more digits or a \<^verbatim>\<open>$[...]\<close> token whose inside
  has no closing bracket.
\<close>

definition index_segment :: "string \<Rightarrow> bool" where
  "index_segment seg \<longleftrightarrow> seg \<noteq> [] \<and> list_all is_digit seg"

definition positional_segment :: "string \<Rightarrow> bool" where
  "positional_segment seg \<longleftrightarrow>
     3 \<le> length seg \<and> take 2 seg = ''$['' \<and> last seg = CHR '']'' \<and>
     CHR '']'' \<notin> set (butlast (drop 2 seg))"

definition positional_piece :: "string \<Rightarrow> bool" where
  "positional_piece m =
     (case m of [] \<Rightarrow> False
      | c # seg \<Rightarrow> c = CHR ''.'' \<and> (index_segment seg \<or> positional_segment seg))"

text \<open>
  Replacing every piece that a dot or the end of the string follows, from the left:
  \<open>replaced s t\<close> holds when \<open>t\<close> is \<open>s\<close> with each such piece replaced by \<^verbatim>\<open>.$\<close>.
\<close>

inductive replaced :: "string \<Rightarrow> string \<Rightarrow> bool" where
  replaced_Nil: "replaced [] []"
| replaced_piece:
    "positional_piece m \<Longrightarrow> lookahead r \<Longrightarrow> replaced r t \<Longrightarrow> replaced (m @ r) (''.$'' @ t)"
| replaced_copy:
    "\<forall>m r. c # cs = m @ r \<longrightarrow> \<not> (positional_piece m \<and> lookahead r) \<Longrightarrow> replaced cs t \<Longrightarrow>
     replaced (c # cs) (c # t)"

text \<open>A key path by its segments: the pieces between the dots.\<close>

fun join_dots :: "string list \<Rightarrow> string" where
  "join_dots [] = []"
| "join_dots [seg] = seg"
| "join_dots (seg # segs) = seg @ CHR ''.'' # join_dots segs"

definition generic_segment :: "string \<Rightarrow> string" where
  "generic_segment seg = (if index_segment seg \<or> positional_segment seg then ''$'' else seg)"

text \<open>Every segment replaced, the first one too.\<close>

definition generic_all_segments :: "string \<Rightarrow> string" where
  "generic_all_segments p = join_dots (map generic_segment (split_on (CHR ''.'') p))"

text \<open>Every segment but the first replaced.\<close>

definition generic_later_segments :: "string \<Rightarrow> string" where
  "generic_later_segments p =
     (case split_on (CHR ''.'') p of
        [] \<Rightarrow> []
      | first # rest \<Rightarrow> join_dots (first # map generic_segment rest))"

text \<open>
  A well-formed key path: a segment is a property name without brackets, or a
  positional operator \<^verbatim>\<open>$[identifier]\<close>.
\<close>

definition bracket_free :: "string \<Rightarrow> bool" where
  "bracket_free seg \<longleftrightarrow> CHR ''['' \<notin> set seg \<and> CHR '']'' \<notin> set seg"

definition wf_key_path :: "string \<Rightarrow> bool" where
  "wf_key_path p \<longleftrightarrow>
     list_all (\<lambda>seg. bracket_free seg \<or> positional_segment seg) (split_on (CHR ''.'') p)"

subsection \<open>Empty containers\<close>

text \<open>
  The values held directly in a plain object or an array. Any other value is a leaf of
  the document: the sanitizer does not look inside it.
\<close>

fun children :: "jsval \<Rightarrow> jsval list" where
  "children (JObj kvs) = map snd kvs"
| "children (JArr xs ex) = map the (filter (\<lambda>x. x \<noteq> None) xs) @ map snd ex"
| "children v = []"

text \<open>A plain object with no own key, an array with no element.\<close>

fun empty_container :: "jsval \<Rightarrow> bool" where
  "empty_container (JObj kvs) = (kvs = [])"
| "empty_container (JArr xs ex) = list_all (\<lambda>x. x = None) xs"
| "empty_container v = False"

lemma size_children: "c \<in> set (children v) \<Longrightarrow> size c < size v"
proof (cases v)
  case (JArr xs ex)
  assume "c \<in> set (children v)"
  with JArr consider (el) "Some c \<in> set xs" | (ex) k where "(k, c) \<in> set ex" by auto
  then show ?thesis
  proof cases
    case el
    then obtain i where "i < length xs" "xs ! i = Some c" by (auto simp: in_set_conv_nth)
    then have "size c < Suc (size_list (size_option size) xs)" by (rule size_nth_slot)
    with JArr show ?thesis by simp
  next
    case ex
    then have "size c < Suc (size_list (size_prod (\<lambda>_. 0) size) ex)"
      by (induction ex) auto
    with JArr show ?thesis by simp
  qed
next
  case (JObj kvs)
  assume "c \<in> set (children v)"
  with JObj obtain k where "(k, c) \<in> set kvs" by auto
  then have "size c < Suc (size_list (size_prod (\<lambda>_. 0) size) kvs)"
    by (induction kvs) auto
  with JObj show ?thesis by simp
qed auto

text \<open>No empty plain object and no empty array at any depth below \<open>v\<close>.\<close>

function no_empty_within :: "jsval \<Rightarrow> bool" where
  "no_empty_within v = list_all (\<lambda>c. \<not> empty_container c \<and> no_empty_within c) (children v)"
  by pat_completeness auto
termination
  by (relation "measure size") (auto simp: size_children)

declare no_empty_within.simps [simp del]

subsection \<open>Null-like values\<close>


section \<open>Definitions used in the proofs\<close>

text \<open>The bracket alternative: the body reaches a closing bracket that the lookahead accepts.\<close>

definition closes :: "string \<Rightarrow> bool" where
  "closes body =
     (case dropWhile (\<lambda>x. x \<noteq> CHR '']'') body of [] \<Rightarrow> False | _ # after \<Rightarrow> lookahead after)"

text \<open>Segments and dots.\<close>

definition dotted :: "string list \<Rightarrow> string" where
  "dotted segs = concat (map (\<lambda>seg. CHR ''.'' # seg) segs)"

text \<open>An array that is not empty ends with an element, not with a hole.\<close>

fun trailing_ok :: "jsval \<Rightarrow> bool" where
  "trailing_ok (JArr xs ex) = (xs = [] \<or> last xs \<noteq> None)"
| "trailing_ok v = True"

definition sanitized :: "jsval \<Rightarrow> bool" where
  "sanitized d \<longleftrightarrow> no_empty_within d \<and> trailing_ok d"

text \<open>The body of the loop of \<open>cleanNulls\<close>, named for the proofs.\<close>

definition clean_step :: "jsval \<Rightarrow> bool \<Rightarrow> string \<Rightarrow> jsval \<Rightarrow> error + jsval" where
  "clean_step doc keepEmptyStrings key newDoc =
     (let val = js_prop doc key in
      if \<not> is_array val \<and> isBasicObject val then
        (case cleanNulls val False keepEmptyStrings of
           Inl e \<Rightarrow> Inl e
         | Inr val' \<Rightarrow> if \<not> isEmpty val' then js_set newDoc key val' else Inr newDoc)
      else if is_array val then
        (case cleanNulls val True keepEmptyStrings of
           Inl e \<Rightarrow> Inl e
         | Inr val' \<Rightarrow> if \<not> isEmpty val' then js_set newDoc key val' else Inr newDoc)
      else if \<not> isNullUndefinedOrEmptyString val then js_set newDoc key val
      else if keepEmptyStrings \<and> is_string val \<and> str_length val = 0 then
        js_set newDoc key val
      else Inr newDoc)"


section \<open>Facts\<close>

subsection \<open>Strings and genericKeyAffectsOtherGenericKey\<close>

lemma js_substring_0: "0 \<le> b \<Longrightarrow> js_substring s 0 b = take (nat b) s"
  by (simp add: js_substring_def Let_def min_def max_def)

lemma js_slice_from_neg2: "js_slice_from s (- 2) = drop (length s - 2) s"
  by (auto simp: js_slice_from_def js_slice_def Let_def min_def max_def nat_diff_distrib)

lemma js_slice_0_neg2: "js_slice s 0 (- 2) = take (length s - 2) s"
  by (auto simp: js_slice_def Let_def min_def max_def nat_diff_distrib)

lemma take_Suc_eq_append:
  "take (Suc (length k)) a = k @ [c] \<longleftrightarrow> (\<exists>r. a = k @ [c] @ r)"
proof
  assume h: "take (Suc (length k)) a = k @ [c]"
  have "a = take (Suc (length k)) a @ drop (Suc (length k)) a" by simp
  with h have "a = k @ [c] @ drop (Suc (length k)) a" by simp
  then show "\<exists>r. a = k @ [c] @ r" ..
next
  assume "\<exists>r. a = k @ [c] @ r"
  then show "take (Suc (length k)) a = k @ [c]" by auto
qed

lemma split_last_two:
  "drop (length k - 2) k = [x, y] \<and> take (length k - 2) k = a \<longleftrightarrow> k = a @ [x, y]"
proof
  assume h: "drop (length k - 2) k = [x, y] \<and> take (length k - 2) k = a"
  have "k = take (length k - 2) k @ drop (length k - 2) k" by simp
  with h show "k = a @ [x, y]" by simp
next
  assume "k = a @ [x, y]"
  then show "drop (length k - 2) k = [x, y] \<and> take (length k - 2) k = a" by simp
qed

subsection \<open>The replacement loop of makeKeyGeneric\<close>

lemma replace_positional_Nil: "replace_positional [] = []"
  by (simp add: replace_positional.simps [of "[]"] match_here_def)

lemma replace_positional_match:
  "match_here s = Some r \<Longrightarrow> replace_positional s = ''.$'' @ replace_positional r"
  by (simp add: replace_positional.simps [of s])

lemma replace_positional_nomatch:
  "match_here (c # cs) = None \<Longrightarrow> replace_positional (c # cs) = c # replace_positional cs"
  by (simp add: replace_positional.simps [of "c # cs"])

lemma match_here_not_dot: "c \<noteq> CHR ''.'' \<Longrightarrow> match_here (c # cs) = None"
  by (simp add: match_here_def)

lemma match_here_Some_dot: "match_here s = Some r \<Longrightarrow> \<exists>t. s = CHR ''.'' # t"
  by (cases s) (auto simp: match_here_def split: if_splits)

lemma replace_positional_not_dot:
  "c \<noteq> CHR ''.'' \<Longrightarrow> replace_positional (c # cs) = c # replace_positional cs"
  by (simp add: replace_positional_nomatch match_here_not_dot)

lemma closes_Cons: "closes (c # cs) = (if c = CHR '']'' then lookahead cs else closes cs)"
  by (simp add: closes_def)

lemma closes_Nil: "closes [] = False"
  by (simp add: closes_def)

lemma match_here_dot:
  "match_here (CHR ''.'' # t) =
     (if takeWhile is_digit t \<noteq> [] then
        (if lookahead (dropWhile is_digit t) then Some (dropWhile is_digit t) else None)
      else
        (case t of
           d # b # body \<Rightarrow>
             if d = CHR ''$'' \<and> b = CHR ''['' then
               (case dropWhile (\<lambda>x. x \<noteq> CHR '']'') body of
                  [] \<Rightarrow> None
                | _ # after \<Rightarrow> if lookahead after then Some after else None)
             else None
         | _ \<Rightarrow> None))"
  by (simp add: match_here_def)

lemma not_digit_dollar: "\<not> is_digit CHR ''$''"
  by (simp add: is_digit_def)

lemma match_here_bracket_eq:
  "match_here (CHR ''.'' # CHR ''$'' # CHR ''['' # body) =
     (case dropWhile (\<lambda>x. x \<noteq> CHR '']'') body of
        [] \<Rightarrow> None
      | x # after \<Rightarrow> if lookahead after then Some after else None)"
  unfolding match_here_dot by (simp add: not_digit_dollar)

lemma match_here_bracket:
  "match_here (CHR ''.'' # CHR ''$'' # CHR ''['' # body) \<noteq> None \<longleftrightarrow> closes body"
proof -
  have "\<And>l. ((case l of [] \<Rightarrow> None
                 | x # after \<Rightarrow> if lookahead after then Some after else None) \<noteq> None) =
             (case l of [] \<Rightarrow> False | x # after \<Rightarrow> lookahead after)"
  proof -
    fix l :: string
    show "((case l of [] \<Rightarrow> None
                 | x # after \<Rightarrow> if lookahead after then Some after else None) \<noteq> None) =
             (case l of [] \<Rightarrow> False | x # after \<Rightarrow> lookahead after)"
      by (cases l) simp_all
  qed
  then show ?thesis unfolding match_here_bracket_eq closes_def by blast
qed

lemma match_here_dot_iff:
  "match_here (CHR ''.'' # t) \<noteq> None \<longleftrightarrow>
     (takeWhile is_digit t \<noteq> [] \<and> lookahead (dropWhile is_digit t)) \<or>
     (takeWhile is_digit t = [] \<and> (\<exists>body. t = CHR ''$'' # CHR ''['' # body \<and> closes body))"
proof (cases "takeWhile is_digit t = []")
  case False
  then show ?thesis unfolding match_here_dot by simp
next
  case tw: True
  show ?thesis
  proof (cases "\<exists>body. t = CHR ''$'' # CHR ''['' # body")
    case True
    then obtain body where "t = CHR ''$'' # CHR ''['' # body" by blast
    with tw show ?thesis using match_here_bracket [of body] by simp
  next
    case nb: False
    have "(case t of d # b # body \<Rightarrow>
             if d = CHR ''$'' \<and> b = CHR ''['' then
               (case dropWhile (\<lambda>x. x \<noteq> CHR '']'') body of
                  [] \<Rightarrow> None
                | _ # after \<Rightarrow> if lookahead after then Some after else None)
             else None
         | _ \<Rightarrow> None) = None"
    proof (cases t)
      case Nil
      then show ?thesis by simp
    next
      case (Cons d t1)
      show ?thesis
      proof (cases t1)
        case Nil
        with Cons show ?thesis by simp
      next
        case c2: (Cons b body)
        with Cons nb have "\<not> (d = CHR ''$'' \<and> b = CHR ''['')" by simp
        then have "\<And>X. (if d = CHR ''$'' \<and> b = CHR ''['' then X else None) = (None :: string option)"
          by (rule if_not_P)
        then show ?thesis unfolding Cons c2 by simp
      qed
    qed
    then have "match_here (CHR ''.'' # t) = None"
      unfolding match_here_dot using tw by simp
    with nb tw show ?thesis by simp
  qed
qed

lemma match_here_lookahead: "match_here s = Some r \<Longrightarrow> lookahead r"
proof -
  assume m: "match_here s = Some r"
  then obtain t where s: "s = CHR ''.'' # t" using match_here_Some_dot by blast
  show ?thesis
  proof (cases "takeWhile is_digit t = []")
    case False
    with m show ?thesis unfolding s match_here_dot by (simp split: if_splits)
  next
    case True
    with m s obtain body where t: "t = CHR ''$'' # CHR ''['' # body"
      using match_here_dot_iff [of t] by auto
    from m show ?thesis unfolding s t match_here_bracket_eq
      by (simp split: list.splits if_splits)
  qed
qed

lemma replace_positional_head: "\<exists>t. replace_positional (c # cs) = c # t"
proof (cases "match_here (c # cs)")
  case None
  then show ?thesis by (simp add: replace_positional_nomatch)
next
  case (Some r)
  then have "c = CHR ''.''" by (auto dest: match_here_Some_dot)
  with Some show ?thesis by (simp add: replace_positional_match)
qed

lemma lookahead_replace: "lookahead (replace_positional s) = lookahead s"
proof (cases s)
  case Nil
  then show ?thesis by (simp add: replace_positional_Nil)
next
  case (Cons c cs)
  obtain t where "replace_positional (c # cs) = c # t"
    using replace_positional_head by blast
  with Cons show ?thesis by simp
qed

lemma is_digit_not_dot: "is_digit c \<Longrightarrow> c \<noteq> CHR ''.''"
  by (auto simp: is_digit_def)

lemma digits_replace:
  "takeWhile is_digit (replace_positional s) = takeWhile is_digit s \<and>
   dropWhile is_digit (replace_positional s) = replace_positional (dropWhile is_digit s)"
proof (induction s)
  case Nil
  then show ?case by (simp add: replace_positional_Nil)
next
  case (Cons c cs)
  show ?case
  proof (cases "is_digit c")
    case True
    then have "replace_positional (c # cs) = c # replace_positional cs"
      by (simp add: replace_positional_not_dot is_digit_not_dot)
    with True Cons show ?thesis by simp
  next
    case False
    obtain t where "replace_positional (c # cs) = c # t"
      using replace_positional_head by blast
    with False show ?thesis by simp
  qed
qed

lemma closes_replace: "closes (replace_positional x) \<Longrightarrow> closes x"
proof (induction x rule: replace_positional.induct)
  case (1 s)
  show ?case
  proof (cases "match_here s")
    case (Some r)
    then obtain t where s: "s = CHR ''.'' # t" using match_here_Some_dot by blast
    from Some have g: "replace_positional s = ''.$'' @ replace_positional r"
      by (rule replace_positional_match)
    with "1.prems" have "closes (replace_positional r)" by (simp add: closes_Cons)
    with "1.IH" Some have cr: "closes r" by simp
    show ?thesis
    proof (cases "takeWhile is_digit t \<noteq> []")
      case True
      with Some s have r: "r = dropWhile is_digit t"
        by (simp add: match_here_def split: if_splits)
      have "\<And>u. closes (takeWhile is_digit t @ u) = closes u"
      proof (induction t)
        case Nil
        then show ?case by simp
      next
        case (Cons a t)
        then show ?case by (auto simp: closes_Cons is_digit_def)
      qed
      then have "closes (takeWhile is_digit t @ dropWhile is_digit t) = closes (dropWhile is_digit t)" .
      then have "closes t = closes r" using r by simp
      with cr s show ?thesis by (simp add: closes_Cons)
    next
      case False
      with Some s obtain body where "t = CHR ''$'' # CHR ''['' # body" "closes body"
        using match_here_dot_iff [of t] by auto
      with s show ?thesis by (simp add: closes_Cons)
    qed
  next
    case None
    show ?thesis
    proof (cases s)
      case Nil
      with "1.prems" show ?thesis by (simp add: replace_positional_Nil)
    next
      case (Cons c cs)
      with None have g: "replace_positional s = c # replace_positional cs"
        by (simp add: replace_positional_nomatch)
      show ?thesis
      proof (cases "c = CHR '']''")
        case True
        with g "1.prems" Cons show ?thesis by (simp add: closes_Cons lookahead_replace)
      next
        case False
        with g "1.prems" have "closes (replace_positional cs)" by (simp add: closes_Cons)
        with "1.IH" None Cons have "closes cs" by simp
        with False Cons show ?thesis by (simp add: closes_Cons)
      qed
    qed
  qed
qed

lemma match_here_replace_None:
  assumes "match_here (c # cs) = None"
  shows "match_here (c # replace_positional cs) = None"
proof (cases "c = CHR ''.''")
  case False
  then show ?thesis by (simp add: match_here_not_dot)
next
  case True
  let ?g = "replace_positional cs"
  from assms True have n: "\<not> (match_here (CHR ''.'' # cs) \<noteq> None)" by simp
  have "\<not> (match_here (CHR ''.'' # ?g) \<noteq> None)"
  proof
    assume "match_here (CHR ''.'' # ?g) \<noteq> None"
    then consider
      (dig) "takeWhile is_digit ?g \<noteq> []" "lookahead (dropWhile is_digit ?g)"
      | (br) body where "takeWhile is_digit ?g = []" "?g = CHR ''$'' # CHR ''['' # body" "closes body"
      using match_here_dot_iff [of ?g] by blast
    then show False
    proof cases
      case dig
      then have "takeWhile is_digit cs \<noteq> []" "lookahead (dropWhile is_digit cs)"
        by (simp_all add: digits_replace lookahead_replace)
      with n show False using match_here_dot_iff [of cs] by blast
    next
      case br
      from br(2) obtain cs1 where cs: "cs = CHR ''$'' # cs1"
        using replace_positional_head [of _ _] by (cases cs) (auto simp: replace_positional_Nil, metis list.inject replace_positional_head)
      with br(2) have g1: "replace_positional cs1 = CHR ''['' # body"
        by (simp add: replace_positional_not_dot)
      then obtain cs2 where cs1: "cs1 = CHR ''['' # cs2"
        by (cases cs1) (auto simp: replace_positional_Nil, metis list.inject replace_positional_head)
      with g1 have "replace_positional cs2 = body"
        by (simp add: replace_positional_not_dot)
      with br(3) have "closes cs2" using closes_replace by blast
      moreover have "takeWhile is_digit cs = []" using cs by (simp add: is_digit_def)
      ultimately show False using n cs cs1 match_here_dot_iff [of cs] by blast
    qed
  qed
  with True show ?thesis by simp
qed

lemma replace_positional_idem:
  "replace_positional (replace_positional s) = replace_positional s"
proof (induction s rule: replace_positional.induct)
  case (1 s)
  show ?case
  proof (cases "match_here s")
    case (Some r)
    let ?g = "replace_positional r"
    from Some have g: "replace_positional s = ''.$'' @ ?g" by (rule replace_positional_match)
    from Some have "lookahead r" by (rule match_here_lookahead)
    then have la: "lookahead ?g" by (simp add: lookahead_replace)
    have "\<not> (match_here (CHR ''.'' # CHR ''$'' # ?g) \<noteq> None)"
    proof
      assume "match_here (CHR ''.'' # CHR ''$'' # ?g) \<noteq> None"
      then have "\<exists>body. ?g = CHR ''['' # body"
        using match_here_dot_iff [of "CHR ''$'' # ?g"] by (auto simp: is_digit_def)
      with la show False by auto
    qed
    then have "replace_positional (CHR ''.'' # CHR ''$'' # ?g) = CHR ''.'' # replace_positional (CHR ''$'' # ?g)"
      by (simp add: replace_positional_nomatch)
    also have "\<dots> = CHR ''.'' # CHR ''$'' # replace_positional ?g"
      by (simp add: replace_positional_not_dot)
    also have "replace_positional ?g = ?g" using "1.IH" Some by simp
    finally show ?thesis using g by simp
  next
    case None
    show ?thesis
    proof (cases s)
      case Nil
      then show ?thesis by (simp add: replace_positional_Nil)
    next
      case (Cons c cs)
      with None have g: "replace_positional s = c # replace_positional cs"
        by (simp add: replace_positional_nomatch)
      from None Cons have "match_here (c # replace_positional cs) = None"
        by (simp add: match_here_replace_None)
      then have "replace_positional (c # replace_positional cs) = c # replace_positional (replace_positional cs)"
        by (rule replace_positional_nomatch)
      with "1.IH" None Cons g show ?thesis by simp
    qed
  qed
qed

subsection \<open>The replacement loop and the pieces of the spec\<close>

lemma positional_segment_iff:
  "positional_segment seg \<longleftrightarrow> (\<exists>b. seg = CHR ''$'' # CHR ''['' # b @ [CHR '']''] \<and> CHR '']'' \<notin> set b)"
proof
  assume h: "positional_segment seg"
  then have l: "3 \<le> length seg" and t: "take 2 seg = [CHR ''$'', CHR ''['']"
    and la: "last seg = CHR '']''" and nb: "CHR '']'' \<notin> set (butlast (drop 2 seg))"
    by (simp_all add: positional_segment_def)
  have "seg = take 2 seg @ drop 2 seg" by simp
  with t have s: "seg = CHR ''$'' # CHR ''['' # drop 2 seg" by simp
  from l have ne: "drop 2 seg \<noteq> []" by simp
  then have "butlast (drop 2 seg) @ [last (drop 2 seg)] = drop 2 seg"
    by (rule append_butlast_last_id)
  then have "drop 2 seg = butlast (drop 2 seg) @ [last (drop 2 seg)]" by (rule sym)
  moreover from ne have "last (drop 2 seg) = last seg" by (simp add: last_drop)
  ultimately have "drop 2 seg = butlast (drop 2 seg) @ [CHR '']'']" using la by simp
  with s have "seg = CHR ''$'' # CHR ''['' # butlast (drop 2 seg) @ [CHR '']'']" by simp
  with nb show "\<exists>b. seg = CHR ''$'' # CHR ''['' # b @ [CHR '']''] \<and> CHR '']'' \<notin> set b" by blast
next
  assume "\<exists>b. seg = CHR ''$'' # CHR ''['' # b @ [CHR '']''] \<and> CHR '']'' \<notin> set b"
  then obtain b where "seg = CHR ''$'' # CHR ''['' # b @ [CHR '']'']" "CHR '']'' \<notin> set b" by blast
  then show "positional_segment seg" by (simp add: positional_segment_def)
qed

lemma lookahead_not_digit: "lookahead r \<Longrightarrow> takeWhile is_digit r = []"
  by (cases r) (auto simp: is_digit_def)

lemma takeWhile_digits_append:
  "list_all is_digit ds \<Longrightarrow> lookahead r \<Longrightarrow>
   takeWhile is_digit (ds @ r) = ds \<and> dropWhile is_digit (ds @ r) = r"
proof (induction ds)
  case Nil
  then show ?case using lookahead_not_digit [of r] by (cases r) (auto split: if_splits)
next
  case (Cons d ds)
  then show ?case by simp
qed

lemma dropWhile_bracket_append:
  "CHR '']'' \<notin> set b \<Longrightarrow> dropWhile (\<lambda>x. x \<noteq> CHR '']'') (b @ CHR '']'' # r) = CHR '']'' # r"
  by (induction b) auto

lemma match_here_piece:
  assumes "positional_piece m" and "lookahead r"
  shows "match_here (m @ r) = Some r"
proof -
  from assms(1) obtain seg where m: "m = CHR ''.'' # seg"
    and seg: "index_segment seg \<or> positional_segment seg"
    by (cases m) (auto simp: positional_piece_def)
  from seg show ?thesis
  proof
    assume "index_segment seg"
    then have ne: "seg \<noteq> []" and dg: "list_all is_digit seg" by (simp_all add: index_segment_def)
    from dg assms(2) have "takeWhile is_digit (seg @ r) = seg" "dropWhile is_digit (seg @ r) = r"
      using takeWhile_digits_append by blast+
    with ne assms(2) m show ?thesis unfolding m append_Cons match_here_dot by simp
  next
    assume "positional_segment seg"
    then obtain b where b: "seg = CHR ''$'' # CHR ''['' # b @ [CHR '']'']" "CHR '']'' \<notin> set b"
      using positional_segment_iff by blast
    have dw: "dropWhile (\<lambda>x. x \<noteq> CHR '']'') (b @ CHR '']'' # r) = CHR '']'' # r"
      using b(2) by (rule dropWhile_bracket_append)
    have "match_here (CHR ''.'' # CHR ''$'' # CHR ''['' # (b @ CHR '']'' # r)) = Some r"
      unfolding match_here_bracket_eq using dw assms(2) by simp
    with m b(1) show ?thesis by simp
  qed
qed

lemma dropWhile_hd: "dropWhile P xs = y # ys \<Longrightarrow> \<not> P y"
  using hd_dropWhile [of P xs] by auto

lemma match_here_is_piece:
  assumes "match_here s = Some r"
  shows "\<exists>m. s = m @ r \<and> positional_piece m \<and> lookahead r"
proof -
  from assms obtain t where s: "s = CHR ''.'' # t" using match_here_Some_dot by blast
  from assms have la: "lookahead r" by (rule match_here_lookahead)
  show ?thesis
  proof (cases "takeWhile is_digit t \<noteq> []")
    case True
    from assms s have "match_here (CHR ''.'' # t) = Some r" by simp
    with True have r: "r = dropWhile is_digit t"
      unfolding match_here_dot by (simp split: if_splits)
    let ?m = "CHR ''.'' # takeWhile is_digit t"
    have "list_all is_digit (takeWhile is_digit t)"
      by (simp add: list_all_iff) (meson set_takeWhileD)
    with True have "positional_piece ?m" by (simp add: positional_piece_def index_segment_def)
    moreover have "s = ?m @ r" using s r by simp
    ultimately show ?thesis using la by blast
  next
    case False
    with assms s obtain body where t: "t = CHR ''$'' # CHR ''['' # body"
      using match_here_dot_iff [of t] by auto
    from assms s t have "match_here (CHR ''.'' # CHR ''$'' # CHR ''['' # body) = Some r" by simp
    then obtain x where d: "dropWhile (\<lambda>x. x \<noteq> CHR '']'') body = x # r"
      unfolding match_here_bracket_eq
      by (cases "dropWhile (\<lambda>x. x \<noteq> CHR '']'') body") (simp_all split: if_splits)
    then have x: "x = CHR '']''" using dropWhile_hd [of "\<lambda>x. x \<noteq> CHR '']''" body x r] by simp
    let ?b = "takeWhile (\<lambda>x. x \<noteq> CHR '']'') body"
    have "body = ?b @ dropWhile (\<lambda>x. x \<noteq> CHR '']'') body" by simp
    with d x have body: "body = ?b @ CHR '']'' # r" by simp
    have nb: "CHR '']'' \<notin> set ?b" by (auto dest: set_takeWhileD)
    let ?m = "CHR ''.'' # CHR ''$'' # CHR ''['' # ?b @ [CHR '']'']"
    have "positional_segment (CHR ''$'' # CHR ''['' # ?b @ [CHR '']''])"
      using nb positional_segment_iff by blast
    then have "positional_piece ?m" by (simp add: positional_piece_def)
    moreover have "s = ?m @ r" using s t body by simp
    ultimately show ?thesis using la by blast
  qed
qed

lemma replaced_imp: "replaced s t \<Longrightarrow> t = replace_positional s"
proof (induction rule: replaced.induct)
  case replaced_Nil
  show ?case by (simp add: replace_positional_Nil)
next
  case (replaced_piece m r t)
  then have "match_here (m @ r) = Some r" by (simp add: match_here_piece)
  then have "replace_positional (m @ r) = ''.$'' @ replace_positional r"
    by (rule replace_positional_match)
  with replaced_piece.IH show ?case by simp
next
  case (replaced_copy c cs t)
  have "match_here (c # cs) = None"
  proof (cases "match_here (c # cs)")
    case None
    then show ?thesis .
  next
    case (Some r)
    then obtain m where "c # cs = m @ r" "positional_piece m" "lookahead r"
      using match_here_is_piece by blast
    with replaced_copy.hyps(1) show ?thesis by blast
  qed
  then have "replace_positional (c # cs) = c # replace_positional cs"
    by (rule replace_positional_nomatch)
  with replaced_copy.IH show ?case by simp
qed

lemma replaced_replace_positional: "replaced s (replace_positional s)"
proof (induction s rule: replace_positional.induct)
  case (1 s)
  show ?case
  proof (cases "match_here s")
    case (Some r)
    then obtain m where m: "s = m @ r" "positional_piece m" "lookahead r"
      using match_here_is_piece by blast
    from Some "1.IH" have "replaced r (replace_positional r)" by simp
    with m have "replaced (m @ r) (''.$'' @ replace_positional r)"
      by (intro replaced.replaced_piece)
    with m(1) Some show ?thesis by (simp add: replace_positional_match)
  next
    case None
    show ?thesis
    proof (cases s)
      case Nil
      then show ?thesis by (simp add: replace_positional_Nil replaced.replaced_Nil)
    next
      case (Cons c cs)
      with None "1.IH" have ih: "replaced cs (replace_positional cs)" by simp
      have "\<forall>m r. c # cs = m @ r \<longrightarrow> \<not> (positional_piece m \<and> lookahead r)"
      proof (intro allI impI notI)
        fix m r
        assume "c # cs = m @ r" "positional_piece m \<and> lookahead r"
        then have "match_here (c # cs) = Some r" using match_here_piece by simp
        with None Cons show False by simp
      qed
      then have "replaced (c # cs) (c # replace_positional cs)"
        using ih by (rule replaced.replaced_copy)
      with None Cons show ?thesis by (simp add: replace_positional_nomatch)
    qed
  qed
qed

lemma replaced_iff: "replaced s t \<longleftrightarrow> t = replace_positional s"
  using replaced_imp replaced_replace_positional by blast

subsection \<open>The replacement loop on the segments of a path\<close>

lemma dotted_Nil: "dotted [] = []"
  by (simp add: dotted_def)

lemma dotted_Cons: "dotted (seg # segs) = CHR ''.'' # seg @ dotted segs"
  by (simp add: dotted_def)

lemma lookahead_dotted: "lookahead (dotted segs)"
  by (cases segs) (simp_all add: dotted_Nil dotted_Cons)

lemma join_dots_dotted: "join_dots (seg # segs) = seg @ dotted segs"
proof (induction segs arbitrary: seg)
  case Nil
  then show ?case by (simp add: dotted_Nil)
next
  case (Cons a segs)
  then show ?case by (simp add: dotted_Cons)
qed

lemma split_on_not_Nil: "split_on sep s \<noteq> []"
  by (induction s) (auto split: list.splits)

lemma join_split_on: "join_dots (split_on (CHR ''.'') s) = s"
proof (induction s)
  case Nil
  then show ?case by simp
next
  case (Cons c s)
  obtain p ps where sp: "split_on (CHR ''.'') s = p # ps"
    using split_on_not_Nil [of "CHR ''.''" s] by (cases "split_on (CHR ''.'') s") auto
  with Cons have j: "p @ dotted ps = s" by (simp add: join_dots_dotted)
  show ?case
  proof (cases "c = CHR ''.''")
    case True
    then have "split_on (CHR ''.'') (c # s) = [] # p # ps" using sp by simp
    then have "join_dots (split_on (CHR ''.'') (c # s)) = dotted (p # ps)"
      by (simp only: join_dots_dotted append_Nil)
    with j True show ?thesis by (simp add: dotted_Cons)
  next
    case False
    then have "split_on (CHR ''.'') (c # s) = (c # p) # ps" using sp by simp
    then have "join_dots (split_on (CHR ''.'') (c # s)) = (c # p) @ dotted ps"
      by (simp only: join_dots_dotted)
    with j show ?thesis by simp
  qed
qed

lemma split_on_free: "seg \<in> set (split_on sep s) \<Longrightarrow> sep \<notin> set seg"
proof (induction s arbitrary: seg)
  case Nil
  then show ?case by simp
next
  case (Cons c s)
  obtain p ps where sp: "split_on sep s = p # ps"
    using split_on_not_Nil [of sep s] by (cases "split_on sep s") auto
  show ?case
  proof (cases "c = sep")
    case True
    with Cons.prems sp have "seg = [] \<or> seg \<in> set (split_on sep s)" by auto
    with Cons.IH show ?thesis by auto
  next
    case False
    with Cons.prems sp have "seg = c # p \<or> seg \<in> set ps" by auto
    moreover have "sep \<notin> set p" using Cons.IH [of p] sp by simp
    moreover have "\<And>q. q \<in> set ps \<Longrightarrow> sep \<notin> set q" using Cons.IH sp by simp
    ultimately show ?thesis using False by auto
  qed
qed

lemma replace_positional_dot_free:
  "CHR ''.'' \<notin> set x \<Longrightarrow> replace_positional (x @ y) = x @ replace_positional y"
proof (induction x)
  case Nil
  then show ?case by simp
next
  case (Cons a x)
  then have "a \<noteq> CHR ''.''" by auto
  then have "replace_positional (a # (x @ y)) = a # replace_positional (x @ y)"
    by (rule replace_positional_not_dot)
  with Cons show ?case by simp
qed

lemma digits_prefix_dot_free:
  assumes "CHR ''.'' \<notin> set seg" and "lookahead tail"
    and "takeWhile is_digit (seg @ tail) \<noteq> []"
    and "lookahead (dropWhile is_digit (seg @ tail))"
  shows "index_segment seg"
proof -
  have tl: "takeWhile is_digit tail = []" using assms(2) by (rule lookahead_not_digit)
  show ?thesis
  proof (cases "list_all is_digit seg")
    case True
    then have "takeWhile is_digit (seg @ tail) = seg"
      using takeWhile_digits_append [OF True assms(2)] by simp
    with assms(3) True show ?thesis by (simp add: index_segment_def)
  next
    case False
    then obtain c where c: "c \<in> set seg" "\<not> is_digit c" by (auto simp: list_all_iff)
    then have "dropWhile is_digit (seg @ tail) = dropWhile is_digit seg @ tail"
      by (simp add: dropWhile_append1)
    moreover from c have ne: "dropWhile is_digit seg \<noteq> []" by (auto simp: dropWhile_eq_Nil_conv)
    ultimately have "lookahead (dropWhile is_digit seg @ tail)" using assms(4) by simp
    with ne have "hd (dropWhile is_digit seg) = CHR ''.''"
      by (cases "dropWhile is_digit seg") simp_all
    moreover have "hd (dropWhile is_digit seg) \<in> set seg"
      using ne by (metis hd_in_set set_dropWhileD)
    ultimately show ?thesis using assms(1) by simp
  qed
qed

lemma bracket_free_not_token:
  assumes "bracket_free seg" and "lookahead tail"
  shows "seg @ tail \<noteq> CHR ''$'' # CHR ''['' # body"
proof
  assume e: "seg @ tail = CHR ''$'' # CHR ''['' # body"
  show False
  proof (cases seg)
    case Nil
    with e assms(2) show False by simp
  next
    case (Cons a seg1)
    show False
    proof (cases seg1)
      case Nil
      with Cons e assms(2) show False by simp
    next
      case c2: (Cons b seg2)
      with Cons e have "b = CHR ''[''" by simp
      with Cons c2 assms(1) show False by (simp add: bracket_free_def)
    qed
  qed
qed

lemma replace_positional_segment:
  assumes df: "CHR ''.'' \<notin> set seg"
    and wf: "bracket_free seg \<or> positional_segment seg"
    and la: "lookahead tail"
  shows "replace_positional (CHR ''.'' # seg @ tail) =
         CHR ''.'' # generic_segment seg @ replace_positional tail"
proof (cases "index_segment seg \<or> positional_segment seg")
  case True
  then have "positional_piece (CHR ''.'' # seg)" by (simp add: positional_piece_def)
  then have "match_here ((CHR ''.'' # seg) @ tail) = Some tail" using la by (rule match_here_piece)
  then have "replace_positional ((CHR ''.'' # seg) @ tail) = ''.$'' @ replace_positional tail"
    by (rule replace_positional_match)
  with True show ?thesis by (simp add: generic_segment_def)
next
  case False
  with wf have bf: "bracket_free seg" by blast
  have "\<not> (match_here (CHR ''.'' # (seg @ tail)) \<noteq> None)"
  proof
    assume "match_here (CHR ''.'' # (seg @ tail)) \<noteq> None"
    then consider
      (dig) "takeWhile is_digit (seg @ tail) \<noteq> []" "lookahead (dropWhile is_digit (seg @ tail))"
      | (br) body where "seg @ tail = CHR ''$'' # CHR ''['' # body"
      using match_here_dot_iff [of "seg @ tail"] by blast
    then show False
    proof cases
      case dig
      with df la have "index_segment seg" by (rule digits_prefix_dot_free)
      with False show False by simp
    next
      case br
      with bf la show False using bracket_free_not_token by blast
    qed
  qed
  then have "replace_positional (CHR ''.'' # (seg @ tail)) = CHR ''.'' # replace_positional (seg @ tail)"
    by (simp add: replace_positional_nomatch)
  with df False show ?thesis by (simp add: replace_positional_dot_free generic_segment_def)
qed

lemma replace_positional_dotted:
  "list_all (\<lambda>seg. CHR ''.'' \<notin> set seg \<and> (bracket_free seg \<or> positional_segment seg)) segs \<Longrightarrow>
   replace_positional (dotted segs) = dotted (map generic_segment segs)"
proof (induction segs)
  case Nil
  then show ?case by (simp add: dotted_Nil replace_positional_Nil)
next
  case (Cons seg segs)
  then have "replace_positional (CHR ''.'' # seg @ dotted segs) =
             CHR ''.'' # generic_segment seg @ replace_positional (dotted segs)"
    by (intro replace_positional_segment lookahead_dotted) simp_all
  with Cons show ?case by (simp add: dotted_Cons)
qed

lemma replace_positional_by_segments:
  assumes "wf_key_path p"
  shows "replace_positional p = generic_later_segments p"
proof -
  obtain first rest where sp: "split_on (CHR ''.'') p = first # rest"
    using split_on_not_Nil [of "CHR ''.''" p] by (cases "split_on (CHR ''.'') p") auto
  have free: "\<And>seg. seg \<in> set (first # rest) \<Longrightarrow> CHR ''.'' \<notin> set seg"
    using split_on_free [of _ "CHR ''.''" p] sp by simp
  from assms sp have wf: "list_all (\<lambda>seg. bracket_free seg \<or> positional_segment seg) (first # rest)"
    by (simp add: wf_key_path_def)
  have all: "list_all (\<lambda>seg. CHR ''.'' \<notin> set seg \<and> (bracket_free seg \<or> positional_segment seg)) rest"
    using free wf by (auto simp: list_all_iff)
  have "p = join_dots (split_on (CHR ''.'') p)" by (simp add: join_split_on)
  with sp have p: "p = first @ dotted rest" by (simp add: join_dots_dotted)
  have "replace_positional (first @ dotted rest) = first @ replace_positional (dotted rest)"
    using free by (intro replace_positional_dot_free) simp
  also have "\<dots> = first @ dotted (map generic_segment rest)"
    using all by (simp add: replace_positional_dotted)
  also have "\<dots> = join_dots (first # map generic_segment rest)"
    by (simp add: join_dots_dotted)
  finally have "replace_positional (first @ dotted rest) = generic_later_segments p"
    using sp by (simp add: generic_later_segments_def)
  with p show ?thesis by simp
qed

subsection \<open>Loops that may throw\<close>

lemma fold_err_inv:
  assumes "fold_err f xs s = Inr r" and "I s"
    and "\<And>x a b. x \<in> set xs \<Longrightarrow> I a \<Longrightarrow> f x a = Inr b \<Longrightarrow> I b"
  shows "I r"
  using assms
proof (induction xs arbitrary: s)
  case Nil
  then show ?case by simp
next
  case (Cons x xs)
  from Cons.prems(1) obtain s' where s': "f x s = Inr s'" and r: "fold_err f xs s' = Inr r"
    by (auto split: sum.splits)
  from s' Cons.prems(2) have "I s'" using Cons.prems(3) [of x s s'] by simp
  have "\<And>y a b. y \<in> set xs \<Longrightarrow> I a \<Longrightarrow> f y a = Inr b \<Longrightarrow> I b"
  proof -
    fix y a b
    assume "y \<in> set xs" "I a" "f y a = Inr b"
    then show "I b" using Cons.prems(3) [of y a b] by simp
  qed
  with r \<open>I s'\<close> show ?case by (rule Cons.IH)
qed

lemma fold_err_total:
  assumes "I s"
    and "\<And>x a. x \<in> set xs \<Longrightarrow> I a \<Longrightarrow> \<exists>b. f x a = Inr b \<and> I b"
  shows "\<exists>r. fold_err f xs s = Inr r \<and> I r"
  using assms
proof (induction xs arbitrary: s)
  case Nil
  then show ?case by simp
next
  case (Cons x xs)
  have "\<exists>b. f x s = Inr b \<and> I b" using Cons.prems(1) by (intro Cons.prems(2)) simp_all
  then obtain s' where s': "f x s = Inr s'" "I s'" by blast
  have step: "\<And>y a. y \<in> set xs \<Longrightarrow> I a \<Longrightarrow> \<exists>b. f y a = Inr b \<and> I b"
  proof -
    fix y a
    assume "y \<in> set xs" "I a"
    then show "\<exists>b. f y a = Inr b \<and> I b" using Cons.prems(2) [of y a] by simp
  qed
  from s'(2) step have "\<exists>r. fold_err f xs s' = Inr r \<and> I r" by (rule Cons.IH)
  with s' show ?case by simp
qed

subsection \<open>Assignments keep a document free of empty containers\<close>

lemma set_replace_at: "set (replace_at kvs k v) \<subseteq> insert (k, v) (set kvs)"
  by (induction kvs) auto

lemma set_obj_put: "set (obj_put kvs k v) \<subseteq> insert (k, v) (set kvs)"
proof (cases "k \<in> set (map fst kvs)")
  case True
  then show ?thesis using set_replace_at [of kvs k v] by (simp add: obj_put_def)
next
  case False
  show ?thesis
  proof (cases "array_index k")
    case None
    with False show ?thesis by (auto simp: obj_put_def)
  next
    case (Some i)
    have "set (takeWhile (index_below i) kvs) \<subseteq> set kvs" by (auto dest: set_takeWhileD)
    moreover have "set (dropWhile (index_below i) kvs) \<subseteq> set kvs" by (auto dest: set_dropWhileD)
    ultimately show ?thesis using False Some by (auto simp: obj_put_def)
  qed
qed

lemma snd_obj_put: "set (map snd (obj_put kvs k v)) \<subseteq> insert v (set (map snd kvs))"
proof
  fix x
  assume "x \<in> set (map snd (obj_put kvs k v))"
  then obtain k' where "(k', x) \<in> set (obj_put kvs k v)" by auto
  with set_obj_put [of kvs k v] have "(k', x) = (k, v) \<or> (k', x) \<in> set kvs" by blast
  then show "x \<in> insert v (set (map snd kvs))" by force
qed

lemma no_empty_within_iff:
  "no_empty_within v \<longleftrightarrow> (\<forall>c \<in> set (children v). \<not> empty_container c \<and> no_empty_within c)"
  by (subst no_empty_within.simps) (simp add: list_all_iff)

lemma slots_update:
  "i < length xs \<Longrightarrow>
   set (map the (filter (\<lambda>x. x \<noteq> None) (xs[i := Some v]))) \<subseteq>
   insert v (set (map the (filter (\<lambda>x. x \<noteq> None) xs)))"
proof -
  have sub: "set (xs[i := Some v]) \<subseteq> insert (Some v) (set xs)" by (rule set_update_subset_insert)
  show ?thesis
  proof
    fix x
    assume "x \<in> set (map the (filter (\<lambda>x. x \<noteq> None) (xs[i := Some v])))"
    then have "Some x \<in> set (xs[i := Some v])" by auto
    with sub have "Some x = Some v \<or> Some x \<in> set xs" by blast
    then show "x \<in> insert v (set (map the (filter (\<lambda>x. x \<noteq> None) xs)))" by force
  qed
qed

lemma slots_extend:
  "set (map the (filter (\<lambda>x. x \<noteq> None) (xs @ replicate n None @ [Some v]))) \<subseteq>
   insert v (set (map the (filter (\<lambda>x. x \<noteq> None) xs)))"
  by auto

lemma children_js_set:
  assumes "js_set d k v = Inr d'"
  shows "set (children d') \<subseteq> insert v (set (children d))"
proof (cases d)
  case (JArr xs ex)
  show ?thesis
  proof (cases "array_index k")
    case None
    with assms JArr have d': "d' = JArr xs (obj_put ex k v)" by simp
    show ?thesis unfolding d' JArr using snd_obj_put [of ex k v] by auto
  next
    case (Some i)
    show ?thesis
    proof (cases "i < length xs")
      case True
      with assms JArr Some have d': "d' = JArr (xs[i := Some v]) ex" by simp
      show ?thesis unfolding d' JArr using slots_update [OF True, of v] by auto
    next
      case False
      with assms JArr Some have d': "d' = JArr (xs @ replicate (i - length xs) None @ [Some v]) ex"
        by simp
      show ?thesis unfolding d' JArr using slots_extend [of xs "i - length xs" v] by auto
    qed
  qed
next
  case (JObj kvs)
  with assms have d': "d' = JObj (obj_put kvs k v)" by auto
  show ?thesis unfolding d' JObj using snd_obj_put [of kvs k v] by simp
next
  case (JInst c kvs)
  with assms have d': "d' = JInst c (obj_put kvs k v)" by auto
  show ?thesis unfolding d' by simp
qed (use assms in auto)

lemma trailing_js_set:
  assumes "js_set d k v = Inr d'" and "trailing_ok d"
  shows "trailing_ok d'"
proof (cases d)
  case (JArr xs ex)
  show ?thesis
  proof (cases "array_index k")
    case None
    with assms JArr show ?thesis by auto
  next
    case (Some i)
    show ?thesis
    proof (cases "i < length xs")
      case True
      with assms JArr Some have d': "d' = JArr (xs[i := Some v]) ex" by simp
      from True have ne: "xs \<noteq> []" by auto
      with assms(2) JArr have "last xs \<noteq> None" by simp
      then have "last (xs[i := Some v]) \<noteq> None"
        using ne by (simp add: last_list_update)
      then show ?thesis unfolding d' by simp
    next
      case False
      with assms JArr Some have d': "d' = JArr (xs @ replicate (i - length xs) None @ [Some v]) ex"
        by simp
      show ?thesis unfolding d' by simp
    qed
  qed
qed (use assms in auto)

lemma sanitized_js_set:
  assumes "js_set d k v = Inr d'" and "sanitized d"
    and "\<not> empty_container v" and "no_empty_within v"
  shows "sanitized d'"
proof -
  from assms(2) have all: "\<forall>c \<in> set (children d). \<not> empty_container c \<and> no_empty_within c"
    using no_empty_within_iff [of d] by (simp add: sanitized_def)
  have "\<forall>c \<in> set (children d'). \<not> empty_container c \<and> no_empty_within c"
    using children_js_set [OF assms(1)] all assms(3,4) by auto
  then have "no_empty_within d'" using no_empty_within_iff [of d'] by simp
  moreover have "trailing_ok d'" using assms(1,2) trailing_js_set by (simp add: sanitized_def)
  ultimately show ?thesis by (simp add: sanitized_def)
qed

lemma not_isEmpty_not_empty_container:
  "trailing_ok v \<Longrightarrow> \<not> isEmpty v \<Longrightarrow> \<not> empty_container v"
proof (cases v)
  case (JArr xs ex)
  assume "trailing_ok v" "\<not> isEmpty v"
  with JArr have "xs \<noteq> []" "last xs \<noteq> None" by auto
  then have "last xs \<in> set xs" "last xs \<noteq> None" by simp_all
  then have "\<not> list_all (\<lambda>x. x = None) xs" by (auto simp: list_all_iff)
  with JArr show ?thesis by simp
qed auto

lemma leaf_no_empty_within:
  assumes "\<not> is_array v" and "\<not> isBasicObject v"
  shows "no_empty_within v"
proof -
  from assms have "children v = []" by (cases v) simp_all
  then show ?thesis by (subst no_empty_within.simps) simp
qed

lemma leaf_not_empty_container: "\<not> is_array v \<Longrightarrow> \<not> isBasicObject v \<Longrightarrow> \<not> empty_container v"
  by (cases v) simp_all

subsection \<open>cleanNulls returns a document free of empty containers\<close>

lemma cleanNulls_unfold:
  "cleanNulls doc isArray keepEmptyStrings =
     (if nullish doc then Inl TypeError
      else fold_err (clean_step doc keepEmptyStrings) (own_keys doc)
             (if isArray then JArr [] [] else JObj []))"
proof -
  have "clean_step doc keepEmptyStrings =
     (\<lambda>key newDoc.
             let val = js_prop doc key in
             if \<not> is_array val \<and> isBasicObject val then
               (case cleanNulls val False keepEmptyStrings of
                  Inl e \<Rightarrow> Inl e
                | Inr val' \<Rightarrow> if \<not> isEmpty val' then js_set newDoc key val' else Inr newDoc)
             else if is_array val then
               (case cleanNulls val True keepEmptyStrings of
                  Inl e \<Rightarrow> Inl e
                | Inr val' \<Rightarrow> if \<not> isEmpty val' then js_set newDoc key val' else Inr newDoc)
             else if \<not> isNullUndefinedOrEmptyString val then js_set newDoc key val
             else if keepEmptyStrings \<and> is_string val \<and> str_length val = 0 then
               js_set newDoc key val
             else Inr newDoc)"
    by (intro ext) (simp only: clean_step_def)
  then show ?thesis by (subst cleanNulls.simps) (simp only:)
qed

lemma no_empty_within_no_children: "children v = [] \<Longrightarrow> no_empty_within v"
  by (subst no_empty_within.simps) simp

lemma sanitized_init: "sanitized (if isArray then JArr [] [] else JObj [])"
  by (simp add: sanitized_def no_empty_within_no_children)

lemma clean_step_sanitized:
  assumes rec1: "\<not> is_array (js_prop doc key) \<and> isBasicObject (js_prop doc key) \<Longrightarrow>
                 \<forall>r. cleanNulls (js_prop doc key) False kes = Inr r \<longrightarrow> sanitized r"
    and rec2: "is_array (js_prop doc key) \<Longrightarrow>
                 \<forall>r. cleanNulls (js_prop doc key) True kes = Inr r \<longrightarrow> sanitized r"
    and nd: "sanitized newDoc"
    and st: "clean_step doc kes key newDoc = Inr b"
  shows "sanitized b"
proof -
  let ?val = "js_prop doc key"
  have kept: "\<And>v'. sanitized v' \<Longrightarrow>
                (if \<not> isEmpty v' then js_set newDoc key v' else Inr newDoc) = Inr b \<Longrightarrow> sanitized b"
  proof -
    fix v'
    assume s: "sanitized v'" and e: "(if \<not> isEmpty v' then js_set newDoc key v' else Inr newDoc) = Inr b"
    show "sanitized b"
    proof (cases "isEmpty v'")
      case True
      with e nd show ?thesis by simp
    next
      case False
      with e have js: "js_set newDoc key v' = Inr b" by simp
      from s False have "\<not> empty_container v'"
        using not_isEmpty_not_empty_container by (simp add: sanitized_def)
      with js nd s show ?thesis using sanitized_js_set by (simp add: sanitized_def)
    qed
  qed
  have leaf: "\<not> is_array ?val \<Longrightarrow> \<not> isBasicObject ?val \<Longrightarrow> js_set newDoc key ?val = Inr b \<Longrightarrow> sanitized b"
    using nd sanitized_js_set leaf_no_empty_within leaf_not_empty_container by blast
  show ?thesis
  proof (cases "\<not> is_array ?val \<and> isBasicObject ?val")
    case True
    with st obtain v' where c: "cleanNulls ?val False kes = Inr v'"
      and e: "(if \<not> isEmpty v' then js_set newDoc key v' else Inr newDoc) = Inr b"
      by (auto simp: clean_step_def Let_def split: sum.splits)
    from rec1 True c have "sanitized v'" by blast
    then show ?thesis using e by (rule kept)
  next
    case nb: False
    show ?thesis
    proof (cases "is_array ?val")
      case True
      with st nb obtain v' where c: "cleanNulls ?val True kes = Inr v'"
        and e: "(if \<not> isEmpty v' then js_set newDoc key v' else Inr newDoc) = Inr b"
        by (auto simp: clean_step_def Let_def split: sum.splits)
      from rec2 True c have "sanitized v'" by blast
      then show ?thesis using e by (rule kept)
    next
      case False
      with nb have l: "\<not> is_array ?val" "\<not> isBasicObject ?val" by auto
      from st nb False have "js_set newDoc key ?val = Inr b \<or> b = newDoc"
        by (auto simp: clean_step_def Let_def split: if_splits)
      with l nd show ?thesis using leaf by blast
    qed
  qed
qed

lemma cleanNulls_sanitized: "cleanNulls doc isArray kes = Inr r \<Longrightarrow> sanitized r"
proof -
  have "\<forall>r. cleanNulls doc isArray kes = Inr r \<longrightarrow> sanitized r"
  proof (induction doc isArray kes rule: cleanNulls.induct)
    case (1 doc isArray kes)
    show ?case
    proof (intro allI impI)
      fix r
      assume c: "cleanNulls doc isArray kes = Inr r"
      then have nn: "\<not> nullish doc" by (subst (asm) cleanNulls_unfold) (auto split: if_splits)
      with c have f: "fold_err (clean_step doc kes) (own_keys doc)
                        (if isArray then JArr [] [] else JObj []) = Inr r"
        by (subst (asm) cleanNulls_unfold) simp
      show "sanitized r"
      proof (rule fold_err_inv [OF f, where I = sanitized])
        show "sanitized (if isArray then JArr [] [] else JObj [])" by (rule sanitized_init)
      next
        fix x a b
        assume x: "x \<in> set (own_keys doc)" and a: "sanitized a" and s: "clean_step doc kes x a = Inr b"
        have r1: "\<not> is_array (js_prop doc x) \<and> isBasicObject (js_prop doc x) \<Longrightarrow>
                  \<forall>r. cleanNulls (js_prop doc x) False kes = Inr r \<longrightarrow> sanitized r"
          using "1.IH"(1) [OF nn x refl] by simp
        have r2: "is_array (js_prop doc x) \<Longrightarrow>
                  \<forall>r. cleanNulls (js_prop doc x) True kes = Inr r \<longrightarrow> sanitized r"
        proof -
          assume ia: "is_array (js_prop doc x)"
          then have "\<not> (\<not> is_array (js_prop doc x) \<and> isBasicObject (js_prop doc x))" by simp
          then show ?thesis using "1.IH"(2) [OF nn x refl _ ia] by simp
        qed
        from r1 r2 a s show "sanitized b" by (rule clean_step_sanitized)
      qed
    qed
  qed
  then show "cleanNulls doc isArray kes = Inr r \<Longrightarrow> sanitized r" by blast
qed

lemma js_set_object: "is_object d \<Longrightarrow> \<exists>d'. js_set d k v = Inr d' \<and> is_object d'"
  by (cases d) (simp_all split: option.splits)

lemma clean_step_total:
  assumes rec1: "\<not> is_array (js_prop doc key) \<and> isBasicObject (js_prop doc key) \<Longrightarrow>
                 \<exists>r. cleanNulls (js_prop doc key) False kes = Inr r"
    and rec2: "is_array (js_prop doc key) \<Longrightarrow>
                 \<exists>r. cleanNulls (js_prop doc key) True kes = Inr r"
    and nd: "is_object newDoc"
  shows "\<exists>b. clean_step doc kes key newDoc = Inr b \<and> is_object b"
proof -
  let ?val = "js_prop doc key"
  have set: "\<And>v. \<exists>b. js_set newDoc key v = Inr b \<and> is_object b"
    using nd by (rule js_set_object)
  have kept: "\<And>v'. \<exists>b. (if \<not> isEmpty v' then js_set newDoc key v' else Inr newDoc) = Inr b \<and> is_object b"
    using set nd by simp
  show ?thesis
  proof (cases "\<not> is_array ?val \<and> isBasicObject ?val")
    case True
    with rec1 obtain v' where "cleanNulls ?val False kes = Inr v'" by blast
    with True kept [of v'] show ?thesis by (simp add: clean_step_def Let_def)
  next
    case nb: False
    show ?thesis
    proof (cases "is_array ?val")
      case True
      with rec2 obtain v' where "cleanNulls ?val True kes = Inr v'" by blast
      with True nb kept [of v'] show ?thesis by (simp add: clean_step_def Let_def)
    next
      case False
      with nb set [of ?val] nd show ?thesis by (simp add: clean_step_def Let_def)
    qed
  qed
qed

lemma array_not_nullish: "is_array v \<Longrightarrow> \<not> nullish v"
  by (cases v) (simp_all add: nullish_def)

lemma basic_not_nullish: "isBasicObject v \<Longrightarrow> \<not> nullish v"
  by (cases v) (simp_all add: nullish_def)

lemma cleanNulls_total:
  "\<not> nullish doc \<Longrightarrow> \<exists>r. cleanNulls doc isArray kes = Inr r"
proof -
  have "\<not> nullish doc \<longrightarrow> (\<exists>r. cleanNulls doc isArray kes = Inr r)"
  proof (induction doc isArray kes rule: cleanNulls.induct)
    case (1 doc isArray kes)
    show ?case
    proof
      assume nn: "\<not> nullish doc"
      have "\<exists>r. fold_err (clean_step doc kes) (own_keys doc)
                   (if isArray then JArr [] [] else JObj []) = Inr r \<and> is_object r"
      proof (rule fold_err_total [where I = is_object])
        show "is_object (if isArray then JArr [] [] else JObj [])" by simp
      next
        fix x a
        assume x: "x \<in> set (own_keys doc)" and a: "is_object a"
        have r1: "\<not> is_array (js_prop doc x) \<and> isBasicObject (js_prop doc x) \<Longrightarrow>
                  \<exists>r. cleanNulls (js_prop doc x) False kes = Inr r"
          using "1.IH"(1) [OF nn x refl] basic_not_nullish by simp
        have r2: "is_array (js_prop doc x) \<Longrightarrow>
                  \<exists>r. cleanNulls (js_prop doc x) True kes = Inr r"
        proof -
          assume ia: "is_array (js_prop doc x)"
          then have "\<not> (\<not> is_array (js_prop doc x) \<and> isBasicObject (js_prop doc x))" by simp
          then show ?thesis using "1.IH"(2) [OF nn x refl _ ia] array_not_nullish ia by simp
        qed
        from r1 r2 a show "\<exists>b. clean_step doc kes x a = Inr b \<and> is_object b"
          by (rule clean_step_total)
      qed
      with nn show "\<exists>r. cleanNulls doc isArray kes = Inr r"
        by (subst cleanNulls_unfold) auto
    qed
  qed
  then show "\<not> nullish doc \<Longrightarrow> \<exists>r. cleanNulls doc isArray kes = Inr r" by blast
qed

subsection \<open>reportNulls\<close>








lemma map_of_replace_at:
  "k \<in> set (map fst kvs) \<Longrightarrow>
   map_of (replace_at kvs k v) k' = (if k' = k then Some v else map_of kvs k')"
proof (induction kvs)
  case Nil
  then show ?case by simp
next
  case (Cons p kvs)
  show ?case
  proof (cases "fst p = k")
    case True
    then show ?thesis by (cases p) auto
  next
    case False
    with Cons.prems have "k \<in> set (map fst kvs)" by auto
    then have "map_of (replace_at kvs k v) k' = (if k' = k then Some v else map_of kvs k')"
      by (rule Cons.IH)
    with False show ?thesis by (cases p) auto
  qed
qed

lemma map_of_append_absent:
  "k \<notin> set (map fst xs) \<Longrightarrow>
   map_of (xs @ (k, v) # ys) k' = (if k' = k then Some v else map_of (xs @ ys) k')"
  by (induction xs) auto

lemma map_of_insert_absent:
  assumes "k \<notin> set (map fst kvs)"
  shows "map_of (takeWhile P kvs @ (k, v) # dropWhile P kvs) k' =
         (if k' = k then Some v else map_of kvs k')"
proof -
  have "k \<notin> set (map fst (takeWhile P kvs))"
    using assms by (auto dest: set_takeWhileD)
  then have "map_of (takeWhile P kvs @ (k, v) # dropWhile P kvs) k' =
             (if k' = k then Some v else map_of (takeWhile P kvs @ dropWhile P kvs) k')"
    by (rule map_of_append_absent)
  then show ?thesis by simp
qed

lemma map_of_obj_put:
  "map_of (obj_put kvs k v) k' = (if k' = k then Some v else map_of kvs k')"
proof (cases "k \<in> set (map fst kvs)")
  case True
  then show ?thesis by (simp add: obj_put_def map_of_replace_at)
next
  case False
  show ?thesis
  proof (cases "array_index k")
    case None
    have "map_of (kvs @ (k, v) # []) k' = (if k' = k then Some v else map_of (kvs @ []) k')"
      using False by (rule map_of_append_absent)
    with False None show ?thesis by (simp add: obj_put_def)
  next
    case (Some i)
    with False show ?thesis
      using map_of_insert_absent [OF False, of "index_below i" v k']
      by (simp add: obj_put_def)
  qed
qed

lemma lookup_obj_put: "lookup (obj_put kvs k v) k' = (if k' = k then v else lookup kvs k')"
  by (simp add: lookup_def map_of_obj_put)






subsection \<open>The loop of expandKey\<close>








lemma js_prop_js_set:
  assumes "js_set c k v = Inr c'"
  shows "js_prop c' k = v"
proof (cases c)
  case (JArr xs ex)
  show ?thesis
  proof (cases "array_index k")
    case None
    with assms JArr show ?thesis by (auto simp: lookup_obj_put)
  next
    case (Some i)
    show ?thesis
    proof (cases "i < length xs")
      case True
      with assms JArr Some show ?thesis by auto
    next
      case False
      then have "length xs + (i - length xs) = i" by simp
      then have "(xs @ replicate (i - length xs) None @ [Some v]) ! i = Some v"
        by (metis append_assoc length_append length_replicate nth_append_length)
      with assms JArr Some False show ?thesis by auto
    qed
  qed
next
  case (JObj kvs)
  with assms show ?thesis by (auto simp: lookup_obj_put)
next
  case (JInst n kvs)
  with assms show ?thesis by (auto simp: lookup_obj_put)
qed (use assms in auto)

lemma js_prop_store_back: "is_object c \<Longrightarrow> js_prop (store_back c k v) k = v"
proof -
  assume "is_object c"
  then obtain c' where "js_set c k v = Inr c'" using js_set_object by blast
  then show ?thesis using js_prop_js_set by (simp add: store_back_def)
qed

















section \<open>Claims about genericKeyAffectsOtherGenericKey\<close>

text \<open>
  C2. For all key strings \<open>k\<close> and \<open>a\<close>, \<open>genericKeyAffectsOtherGenericKey k a\<close> is true
  exactly when \<open>a\<close> equals \<open>k\<close>, or \<open>a\<close> begins with \<open>k\<close> followed by a dot, or \<open>k\<close> ends in
  \<^verbatim>\<open>.$\<close> and \<open>k\<close> without that ending equals \<open>a\<close>.
\<close>

theorem genericKeyAffectsOtherGenericKey_iff:
  "genericKeyAffectsOtherGenericKey k a \<longleftrightarrow>
     a = k \<or> (\<exists>r. a = k @ ''.'' @ r) \<or> (\<exists>p. k = p @ ''.$'' \<and> p = a)"
proof -
  have s1: "js_substring a 0 (int (length k) + 1) = take (Suc (length k)) a"
    by (simp add: js_substring_0 nat_add_distrib)
  have s2: "(take (Suc (length k)) a = k @ ''.'') = (\<exists>r. a = k @ ''.'' @ r)"
    by (rule take_Suc_eq_append)
  have s3: "(drop (length k - 2) k = ''.$'' \<and> take (length k - 2) k = a) = (k = a @ ''.$'')"
    by (rule split_last_two)
  show ?thesis
    unfolding genericKeyAffectsOtherGenericKey_def Let_def s1 js_slice_from_neg2 js_slice_0_neg2
    using s2 s3 by auto
qed

text \<open>
  C3, as the spec states it, gives the value true for the candidate \<^verbatim>\<open>a.$\<close> and the
  affected key \<^verbatim>\<open>a.0\<close>. The function compares the two strings as they are and returns
  false there.
\<close>

theorem genericKeyAffectsOtherGenericKey_index_counterexample:
  "\<not> genericKeyAffectsOtherGenericKey ''a.$'' ''a.0''"
  by (simp add: genericKeyAffectsOtherGenericKey_def js_substring_def js_slice_def
      js_slice_from_def Let_def)

text \<open>
  C3, amended. On the four inputs the function returns: false for candidate \<^verbatim>\<open>a.$\<close> and
  affected \<^verbatim>\<open>a.0\<close>; false for candidate \<^verbatim>\<open>a.0\<close> and affected \<^verbatim>\<open>a.$\<close>; true for candidate
  \<^verbatim>\<open>a\<close> and affected \<^verbatim>\<open>a.b\<close>; false for candidate \<^verbatim>\<open>a.b\<close> and affected \<^verbatim>\<open>a\<close>.
\<close>

theorem genericKeyAffectsOtherGenericKey_examples:
  "\<not> genericKeyAffectsOtherGenericKey ''a.$'' ''a.0'' \<and>
   \<not> genericKeyAffectsOtherGenericKey ''a.0'' ''a.$'' \<and>
   genericKeyAffectsOtherGenericKey ''a'' ''a.b'' \<and>
   \<not> genericKeyAffectsOtherGenericKey ''a.b'' ''a''"
  by code_simp

section \<open>Claims about makeKeyGeneric\<close>

text \<open>
  C4. \<open>makeKeyGeneric\<close> is idempotent: applying it to its own result returns that result,
  so a generic path comes back unchanged.
\<close>

theorem makeKeyGeneric_idempotent:
  "makeKeyGeneric (makeKeyGeneric key) = makeKeyGeneric key"
  by (cases key) (simp_all add: makeKeyGeneric_def replace_positional_idem)

theorem makeKeyGeneric_idempotent_witness:
  "makeKeyGeneric (JStr ''a.0.1.b'') = JStr ''a.$.$.b'' \<and>
   makeKeyGeneric (JStr ''a.$.$.b'') = JStr ''a.$.$.b''"
proof -
  have a: "makeKeyGeneric (JStr ''a.0.1.b'') = JStr ''a.$.$.b''" by code_simp
  with makeKeyGeneric_idempotent [of "JStr ''a.0.1.b''"] show ?thesis by simp
qed

text \<open>
  C5. \<open>makeKeyGeneric\<close> returns \<open>null\<close> for an input that is not a string. For a string it
  replaces, from the left, every piece made of a dot and then one or more digits or a
  \<^verbatim>\<open>$[...]\<close> token, where a dot or the end of the string follows, by \<^verbatim>\<open>.$\<close>: its result is
  the one string that \<open>replaced\<close> relates to the input. Pieces next to each other are all
  replaced: \<^verbatim>\<open>a.0.1.b\<close> becomes \<^verbatim>\<open>a.$.$.b\<close>.
\<close>

theorem makeKeyGeneric_replaces:
  "(\<not> is_string key \<longrightarrow> makeKeyGeneric key = JNull) \<and>
   (replaced s t \<longleftrightarrow> makeKeyGeneric (JStr s) = JStr t) \<and>
   makeKeyGeneric (JStr ''a.0.1.b'') = JStr ''a.$.$.b''"
proof (intro conjI)
  show "\<not> is_string key \<longrightarrow> makeKeyGeneric key = JNull"
    by (cases key) (simp_all add: makeKeyGeneric_def)
  show "replaced s t \<longleftrightarrow> makeKeyGeneric (JStr s) = JStr t"
    by (auto simp: makeKeyGeneric_def replaced_iff)
  show "makeKeyGeneric (JStr ''a.0.1.b'') = JStr ''a.$.$.b''"
    by code_simp
qed

theorem makeKeyGeneric_replaces_witness:
  "makeKeyGeneric (JNum 3) = JNull \<and> replaced ''a.0.1.b'' ''a.$.$.b''"
  using makeKeyGeneric_replaces [of "JNum 3" "''a.0.1.b''" "''a.$.$.b''"] by simp

text \<open>
  C6, as the spec states it, has an index segment or a positional operator in the first
  position replaced as well. The pattern starts with a dot, so the first segment of a
  path is never replaced: \<^verbatim>\<open>0.a\<close> and \<^verbatim>\<open>$[id].a\<close> come back unchanged, where replacing
  every segment gives \<^verbatim>\<open>$.a\<close>.
\<close>

theorem makeKeyGeneric_first_segment_counterexample:
  "wf_key_path ''0.a'' \<and> makeKeyGeneric (JStr ''0.a'') = JStr ''0.a'' \<and>
   generic_all_segments ''0.a'' = ''$.a'' \<and>
   wf_key_path ''$[id].a'' \<and> makeKeyGeneric (JStr ''$[id].a'') = JStr ''$[id].a'' \<and>
   generic_all_segments ''$[id].a'' = ''$.a''"
  by code_simp

text \<open>
  C6, amended. For every well-formed key path, \<open>makeKeyGeneric\<close> returns the path in which
  every segment after the first that is an array index (digits only) or a positional
  operator \<^verbatim>\<open>$[identifier]\<close> is replaced by \<^verbatim>\<open>$\<close>; the first segment and all other
  segments are unchanged.
\<close>

theorem makeKeyGeneric_later_segments:
  "wf_key_path p \<Longrightarrow> makeKeyGeneric (JStr p) = JStr (generic_later_segments p)"
  by (simp add: makeKeyGeneric_def replace_positional_by_segments)

theorem makeKeyGeneric_later_segments_witness:
  "wf_key_path ''a.0.$[x].b.12'' \<and>
   makeKeyGeneric (JStr ''a.0.$[x].b.12'') = JStr ''a.$.$.b.$''"
proof -
  have w: "wf_key_path ''a.0.$[x].b.12''" by code_simp
  have g: "generic_later_segments ''a.0.$[x].b.12'' = ''a.$.$.b.$''" by code_simp
  from makeKeyGeneric_later_segments [OF w] w g show ?thesis by simp
qed

section \<open>Claims about cleanNulls\<close>

text \<open>
  C1, as the spec states it, has \<open>cleanNulls\<close> return \<^verbatim>\<open>{e: [1]}\<close> on the document
  \<^verbatim>\<open>{a: null, b: "", c: {d: null}, e: [null, 1]}\<close>, the surviving element moved to
  index 0. The loop assigns each kept element under its own key, so the element stays at
  index 1 and the result is not the array \<^verbatim>\<open>[1]\<close>.
\<close>

theorem cleanNulls_reindex_counterexample:
  "cleanNulls
     (JObj [(''a'', JNull), (''b'', JStr []), (''c'', JObj [(''d'', JNull)]),
            (''e'', JArr [Some JNull, Some (JNum 1)] [])]) False False \<noteq>
   Inr (JObj [(''e'', JArr [Some (JNum 1)] [])])"
  by code_simp

text \<open>
  C1, amended. On that document, with \<open>isArray\<close> and \<open>keepEmptyStrings\<close> false,
  \<open>cleanNulls\<close> returns the object whose only key is \<open>e\<close>, bound to an array of length 2
  with a hole at index 0 and the number 1 at index 1: the null and empty-string leaves
  and the container emptied by sanitization are dropped, and the surviving array element
  keeps its index.
\<close>

theorem cleanNulls_example:
  "cleanNulls
     (JObj [(''a'', JNull), (''b'', JStr []), (''c'', JObj [(''d'', JNull)]),
            (''e'', JArr [Some JNull, Some (JNum 1)] [])]) False False =
   Inr (JObj [(''e'', JArr [None, Some (JNum 1)] [])])"
  by code_simp

theorem cleanNulls_example_witness:
  "\<exists>r. cleanNulls
          (JObj [(''a'', JNull), (''b'', JStr []), (''c'', JObj [(''d'', JNull)]),
                 (''e'', JArr [Some JNull, Some (JNum 1)] [])]) False False = Inr r \<and>
        own_keys r = [''e''] \<and> array_length (js_prop r ''e'') = 2 \<and>
        js_prop (js_prop r ''e'') ''0'' = JUndefined \<and>
        js_prop (js_prop r ''e'') ''1'' = JNum 1"
  unfolding cleanNulls_example by (simp add: lookup_def array_index_def is_digit_def digit_val_def)

text \<open>
  C9. For every document (any value but \<open>null\<close> and \<open>undefined\<close>, on which
  \<^verbatim>\<open>Object.keys\<close> throws), either flag and both values of \<open>keepEmptyStrings\<close>,
  \<open>cleanNulls\<close> returns, and its result holds at no depth a plain object without keys or
  an array without elements: a container that sanitizing its children empties is not
  assigned into its parent. The result itself can be empty, as for the document \<^verbatim>\<open>{}\<close>.
  An object that is not plain is kept as a leaf, and what it holds is not part of the
  document.
\<close>

theorem cleanNulls_no_empty_container:
  "\<not> nullish doc \<Longrightarrow>
   \<exists>r. cleanNulls doc isArray keepEmptyStrings = Inr r \<and> no_empty_within r"
proof -
  assume "\<not> nullish doc"
  then obtain r where r: "cleanNulls doc isArray keepEmptyStrings = Inr r"
    using cleanNulls_total by blast
  then have "sanitized r" by (rule cleanNulls_sanitized)
  with r show ?thesis by (auto simp: sanitized_def)
qed

theorem cleanNulls_no_empty_container_witness:
  "\<not> nullish (JObj [(''a'', JObj [(''b'', JObj [(''c'', JNull)])]),
                    (''d'', JArr [Some (JArr [] []), Some (JArr [Some JNull, Some (JObj [])] [])] []),
                    (''e'', JArr [Some JNull, Some (JStr [])] []),
                    (''f'', JStr [])]) \<and>
   cleanNulls (JObj [(''a'', JObj [(''b'', JObj [(''c'', JNull)])]),
                     (''d'', JArr [Some (JArr [] []), Some (JArr [Some JNull, Some (JObj [])] [])] []),
                     (''e'', JArr [Some JNull, Some (JStr [])] []),
                     (''f'', JStr [])]) False True =
     Inr (JObj [(''e'', JArr [None, Some (JStr [])] []), (''f'', JStr [])]) \<and>
   no_empty_within (JObj [(''e'', JArr [None, Some (JStr [])] []), (''f'', JStr [])])"
proof -
  let ?d = "JObj [(''a'', JObj [(''b'', JObj [(''c'', JNull)])]),
                  (''d'', JArr [Some (JArr [] []), Some (JArr [Some JNull, Some (JObj [])] [])] []),
                  (''e'', JArr [Some JNull, Some (JStr [])] []),
                  (''f'', JStr [])]"
  have n: "\<not> nullish ?d" by (simp add: nullish_def)
  have c: "cleanNulls ?d False True =
           Inr (JObj [(''e'', JArr [None, Some (JStr [])] []), (''f'', JStr [])])"
    by code_simp
  from cleanNulls_no_empty_container [OF n, of False True] c n show ?thesis by simp
qed

section \<open>Claims about reportNulls\<close>



section \<open>Claims about expandKey\<close>





end
